theory Spec2Isabelle
  imports Complex_Main "HOL-Library.Sublist" "HOL-Library.Word"
begin

section \<open>Decoded JSON values and the Python operations applied to them\<close>

text \<open>
  The search handler (\<^verbatim>\<open>src/1.py\<close>) works on the value that \<^verbatim>\<open>response.json()\<close>
  decodes. A decoded object is a Python dict: it is kept as the list of its items and
  read by key. A float stands for its exact (finite) value, which is what Python's
  comparison of numbers looks at.
\<close>

datatype json =
    JNull
  | JBool bool
  | JInt int
  | JFloat rat
  | JStr string
  | JArr "json list"
  | JObj "(string \<times> json) list"

datatype py_error = AttributeError | TypeError | ValueError | IndexError

text \<open>\<^verbatim>\<open>x.get(k, d)\<close>: only a dict has the method; any other value raises AttributeError.\<close>

fun dict_get :: "json \<Rightarrow> string \<Rightarrow> json \<Rightarrow> py_error + json" where
  "dict_get (JObj kvs) k d = Inr (case map_of kvs k of None \<Rightarrow> d | Some v \<Rightarrow> v)"
| "dict_get _ k d = Inl AttributeError"

text \<open>Truth value of a Python object, as \<^verbatim>\<open>if preview_url\<close> tests it.\<close>

fun py_truthy :: "json \<Rightarrow> bool" where
  "py_truthy JNull = False"
| "py_truthy (JBool b) = b"
| "py_truthy (JInt i) = (i \<noteq> 0)"
| "py_truthy (JFloat r) = (r \<noteq> 0)"
| "py_truthy (JStr s) = (s \<noteq> [])"
| "py_truthy (JArr xs) = (xs \<noteq> [])"
| "py_truthy (JObj kvs) = (kvs \<noteq> [])"

text \<open>
  Membership in a Python set goes by hash and \<^verbatim>\<open>==\<close>: \<^verbatim>\<open>True\<close>, \<^verbatim>\<open>1\<close> and \<^verbatim>\<open>1.0\<close> are one
  key, \<^verbatim>\<open>None\<close> is a key, and a list or a dict is unhashable (TypeError). A key is the
  value up to that equality.
\<close>

datatype py_key = KNone | KNum rat | KStr string

fun py_key_of :: "json \<Rightarrow> py_key option" where
  "py_key_of JNull = Some KNone"
| "py_key_of (JBool b) = Some (KNum (if b then 1 else 0))"
| "py_key_of (JInt i) = Some (KNum (of_int i))"
| "py_key_of (JFloat r) = Some (KNum r)"
| "py_key_of (JStr s) = Some (KStr s)"
| "py_key_of (JArr xs) = None"
| "py_key_of (JObj kvs) = None"

section \<open>The playlist filter of \<^verbatim>\<open>get_playlist\<close> (src/1.py, lines 67-93)\<close>

definition TARGET_SONGS :: int where
  "TARGET_SONGS = 5"

definition DEFAULT_QUERY :: string where
  "DEFAULT_QUERY = ''lofi''"

record track_info =
  title :: json
  artist :: json
  preview_url :: json

text \<open>
  Lines 73-76: the four fields read from a candidate, in the order of the source. A
  candidate that is not a dict, or whose \<^verbatim>\<open>artist\<close> is present and not a dict, raises.
\<close>

definition extract_fields :: "json \<Rightarrow> py_error + (json \<times> json \<times> json \<times> json)" where
  "extract_fields song =
     (case dict_get song ''title'' JNull of
        Inl e \<Rightarrow> Inl e
      | Inr title_v \<Rightarrow>
          (case dict_get song ''artist'' (JObj []) of
             Inl e \<Rightarrow> Inl e
           | Inr artist_obj \<Rightarrow>
               (case dict_get artist_obj ''name'' JNull of
                  Inl e \<Rightarrow> Inl e
                | Inr artist_name \<Rightarrow>
                    (case dict_get song ''preview'' JNull of
                       Inl e \<Rightarrow> Inl e
                     | Inr preview_v \<Rightarrow>
                         (case dict_get song ''id'' JNull of
                            Inl e \<Rightarrow> Inl e
                          | Inr track_id \<Rightarrow> Inr (title_v, artist_name, preview_v, track_id))))))"

text \<open>
  Lines 73-86, one candidate against the identifiers seen so far: it raises, it is
  passed over, or it is accepted with the entry built from it and the key to record.
  \<^verbatim>\<open>and\<close> evaluates its right operand only when the left one is true, so the identifier is
  hashed only for a candidate with a preview.
\<close>

datatype verdict = Raise py_error | Skip | Accept track_info py_key

definition inspect :: "json \<Rightarrow> py_key set \<Rightarrow> verdict" where
  "inspect song seen_track_ids =
     (case extract_fields song of
        Inl e \<Rightarrow> Raise e
      | Inr (title_v, artist_name, preview_v, track_id) \<Rightarrow>
          if py_truthy preview_v then
            (case py_key_of track_id of
               None \<Rightarrow> Raise TypeError
             | Some k \<Rightarrow>
                 if k \<notin> seen_track_ids
                 then Accept \<lparr>title = title_v, artist = artist_name, preview_url = preview_v\<rparr> k
                 else Skip)
          else Skip)"

text \<open>
  Lines 71-93: the loop over the candidates, with \<^verbatim>\<open>filtered_playlist\<close> and
  \<^verbatim>\<open>seen_track_ids\<close> as its state. The length is compared with the target after an
  append only, and \<^verbatim>\<open>break\<close> leaves the rest of the input unread.
\<close>

fun filter_loop :: "int \<Rightarrow> json list \<Rightarrow> track_info list \<Rightarrow> py_key set \<Rightarrow> py_error + track_info list" where
  "filter_loop target [] filtered_playlist seen_track_ids = Inr filtered_playlist"
| "filter_loop target (song # songs) filtered_playlist seen_track_ids =
     (case inspect song seen_track_ids of
        Raise e \<Rightarrow> Inl e
      | Skip \<Rightarrow> filter_loop target songs filtered_playlist seen_track_ids
      | Accept info k \<Rightarrow>
          (if int (length (filtered_playlist @ [info])) \<ge> target
           then Inr (filtered_playlist @ [info])
           else filter_loop target songs (filtered_playlist @ [info]) (insert k seen_track_ids)))"

definition playlist_filter :: "int \<Rightarrow> json list \<Rightarrow> py_error + track_info list" where
  "playlist_filter target songs = filter_loop target songs [] {}"

text \<open>
  The candidates the loop accepts, in order: the same walk as \<open>filter_loop\<close>, keeping the
  candidate instead of the entry built from it. \<open>n\<close> is the length of the playlist so far.
\<close>

fun accepted_songs :: "int \<Rightarrow> json list \<Rightarrow> nat \<Rightarrow> py_key set \<Rightarrow> json list" where
  "accepted_songs target [] n seen_track_ids = []"
| "accepted_songs target (song # songs) n seen_track_ids =
     (case inspect song seen_track_ids of
        Raise e \<Rightarrow> []
      | Skip \<Rightarrow> accepted_songs target songs n seen_track_ids
      | Accept info k \<Rightarrow>
          song # (if int (Suc n) \<ge> target then []
                  else accepted_songs target songs (Suc n) (insert k seen_track_ids)))"

definition contributors :: "int \<Rightarrow> json list \<Rightarrow> json list" where
  "contributors target songs = accepted_songs target songs 0 {}"

text \<open>The entry a candidate gives, and the key of its \<^verbatim>\<open>id\<close>, when its fields can be read.\<close>

definition entry_of :: "json \<Rightarrow> track_info option" where
  "entry_of song =
     (case extract_fields song of
        Inl e \<Rightarrow> None
      | Inr (title_v, artist_name, preview_v, track_id) \<Rightarrow>
          Some \<lparr>title = title_v, artist = artist_name, preview_url = preview_v\<rparr>)"

definition id_key :: "json \<Rightarrow> py_key option" where
  "id_key song =
     (case extract_fields song of
        Inl e \<Rightarrow> None
      | Inr (title_v, artist_name, preview_v, track_id) \<Rightarrow> py_key_of track_id)"

section \<open>The handler \<^verbatim>\<open>get_playlist\<close> around the filter (src/1.py, lines 16-104)\<close>

text \<open>
  \<^verbatim>\<open>request.args\<close> is a multi-dict: the query string's pairs in order, and \<^verbatim>\<open>get(k, d)\<close>
  gives the first value of \<open>k\<close>, or \<open>d\<close> when the key does not occur. A key given with
  nothing after it (\<^verbatim>\<open>?q=\<close>) occurs, with the empty string as its value.
\<close>

definition args_get :: "(string \<times> string) list \<Rightarrow> string \<Rightarrow> string \<Rightarrow> string" where
  "args_get args k d = (case map_of args k of None \<Rightarrow> d | Some v \<Rightarrow> v)"

text \<open>Line 29.\<close>

definition search_term :: "(string \<times> string) list \<Rightarrow> string" where
  "search_term args = args_get args ''q'' DEFAULT_QUERY"

text \<open>
  Lines 41-54: what the call to the search provider gives for a term. Every failure of
  the request is one \<^verbatim>\<open>RequestException\<close>; otherwise the body is decoded.
\<close>

datatype upstream = RequestException | Decoded json

text \<open>What the handler passes to \<^verbatim>\<open>jsonify\<close>, paired with the status code it returns.\<close>

datatype payload = ErrorBody string string | SongList "track_info list"

definition quoted :: "string \<Rightarrow> string" where
  "quoted s = CHR 0x27 # s @ [CHR 0x27]"

definition upstream_error :: "payload \<times> nat" where
  "upstream_error =
     (ErrorBody ''External API Error''
        ''Could not connect to or retrieve data from the Deezer API.'', 503)"

definition malformed_error :: "string \<Rightarrow> payload \<times> nat" where
  "malformed_error query =
     (ErrorBody ''No Songs Found''
        (''No results found for query '' @ quoted query @
         '' or API response was unexpected.''), 404)"

definition no_songs_error :: "string \<Rightarrow> payload \<times> nat" where
  "no_songs_error query =
     (ErrorBody ''No Songs Found''
        (''Could not find any songs with a preview URL for query '' @ quoted query @
         ''. Try a different search term.''), 404)"

text \<open>
  Line 60, \<^verbatim>\<open>'data' not in data or not isinstance(data['data'], list)\<close>, and line 67:
  the candidate list, \<open>None\<close> when the test sends the request to the 404 branch. On a
  decoded list or string \<^verbatim>\<open>in\<close> is element or substring membership and the subscript
  raises; on any other value \<^verbatim>\<open>in\<close> itself raises.
\<close>

fun data_field :: "json \<Rightarrow> py_error + json list option" where
  "data_field (JObj kvs) =
     (case map_of kvs ''data'' of
        None \<Rightarrow> Inr None
      | Some (JArr songs) \<Rightarrow> Inr (Some songs)
      | Some _ \<Rightarrow> Inr None)"
| "data_field (JArr xs) = (if JStr ''data'' \<in> set xs then Inl TypeError else Inr None)"
| "data_field (JStr s) = (if sublist ''data'' s then Inl TypeError else Inr None)"
| "data_field _ = Inl TypeError"

definition get_playlist ::
  "(string \<times> string) list \<Rightarrow> (string \<Rightarrow> upstream) \<Rightarrow> py_error + (payload \<times> nat)" where
  "get_playlist args deezer =
     (let query = search_term args in
      case deezer query of
        RequestException \<Rightarrow> Inr upstream_error
      | Decoded data \<Rightarrow>
          (case data_field data of
             Inl e \<Rightarrow> Inl e
           | Inr None \<Rightarrow> Inr (malformed_error query)
           | Inr (Some songs) \<Rightarrow>
               (case filter_loop TARGET_SONGS songs [] {} of
                  Inl e \<Rightarrow> Inl e
                | Inr filtered_playlist \<Rightarrow>
                    if filtered_playlist = [] then Inr (no_songs_error query)
                    else Inr (SongList filtered_playlist, 200))))"

section \<open>The mood handler \<^verbatim>\<open>analyze_mood\<close> (src/backend/main.py, lines 29-37)\<close>

text \<open>
  One item of the classifier's output, \<^verbatim>\<open>{'label': ..., 'score': ...}\<close>. \<^verbatim>\<open>max\<close> only
  compares the scores, so it is modelled for scores of any linearly ordered type.
\<close>

record 's scored =
  label :: string
  score :: 's

text \<open>
  \<^verbatim>\<open>max(result, key=lambda x: x['score'])\<close>: the first item is the maximum so far, and a
  later item replaces it only when its key is greater. An empty list raises ValueError.
\<close>

fun max_loop :: "('s::linorder) scored \<Rightarrow> 's scored list \<Rightarrow> 's scored" where
  "max_loop maxitem [] = maxitem"
| "max_loop maxitem (item # items) =
     max_loop (if score item > score maxitem then item else maxitem) items"

fun py_max :: "('s::linorder) scored list \<Rightarrow> py_error + 's scored" where
  "py_max [] = Inl ValueError"
| "py_max (item # items) = Inr (max_loop item items)"

text \<open>
  A Python float is a binary64 number; a finite one is kept as the rational number it is
  exactly (the float written \<^verbatim>\<open>0.6\<close> is 5404319552844595 / 2^53, not 6/10), and floats
  compare as these numbers do. Infinities and NaN are not values of the model.

  \<open>round_half_even\<close> is the nearest integer, a tie going to the even one, and
  \<open>bit_length\<close> is Python's \<^verbatim>\<open>int.bit_length\<close>. For \<open>q > 0\<close>, \<open>ilog2 q\<close> is the exponent
  \<open>e\<close> with \<open>2^e \<le> q < 2^(e+1)\<close>, and \<open>pow2 e\<close> is \<open>2^e\<close> for an integer \<open>e\<close>.
\<close>

definition round_half_even :: "rat \<Rightarrow> int" where
  "round_half_even q =
     (let f = \<lfloor>q\<rfloor>; d = q - of_int f in
      if d < 1 / 2 then f else if d > 1 / 2 then f + 1 else if even f then f else f + 1)"

fun bit_length :: "nat \<Rightarrow> nat" where
  "bit_length n = (if n = 0 then 0 else Suc (bit_length (n div 2)))"

declare bit_length.simps [simp del]

definition ilog2 :: "rat \<Rightarrow> int" where
  "ilog2 q =
     (if 1 \<le> q then int (bit_length (nat \<lfloor>q\<rfloor>)) - 1
      else - int (bit_length (nat (\<lceil>1 / q\<rceil> - 1))))"

definition pow2 :: "int \<Rightarrow> rat" where
  "pow2 e = (if 0 \<le> e then 2 ^ nat e else 1 / 2 ^ nat (- e))"

text \<open>
  The float nearest to a rational, as the conversion of a decimal string gives it: the
  multiple of the unit in the last place (53 significant bits, exponent not below the
  subnormal one) nearest to \<open>q\<close>, a tie going to the even significand. The exponent is
  not bounded from above: the one use below rounds a float to three decimals, which
  cannot take it past the largest float.
\<close>

definition to_double :: "rat \<Rightarrow> rat" where
  "to_double q =
     (if q = 0 then 0
      else let e = max (ilog2 \<bar>q\<bar>) (- 1022); ulp = pow2 (e - 52)
           in of_int (round_half_even (q / ulp)) * ulp)"

text \<open>
  \<^verbatim>\<open>round(x, ndigits)\<close> on a float, as CPython computes it: the exact value of \<open>x\<close> is
  rounded to the nearest decimal with \<open>ndigits\<close> digits after the point, a tie going to
  the even last digit, and the result is the float nearest to that decimal. Above 323
  digits the float is returned as it is.
\<close>

definition py_round :: "rat \<Rightarrow> nat \<Rightarrow> rat" where
  "py_round x ndigits =
     (if ndigits > 323 then x
      else to_double (of_int (round_half_even (x * 10 ^ ndigits)) / 10 ^ ndigits))"

record mood_response =
  input_text :: string
  mood :: string
  confidence :: rat

text \<open>
  Lines 30-37. The classifier is a parameter (the external model); \<^verbatim>\<open>[0]\<close> on an empty
  output raises IndexError.
\<close>

definition analyze_mood ::
  "(string \<Rightarrow> rat scored list list) \<Rightarrow> string \<Rightarrow> py_error + mood_response" where
  "analyze_mood emotion_model text_v =
     (case emotion_model text_v of
        [] \<Rightarrow> Inl IndexError
      | result # others \<Rightarrow>
          (case py_max result of
             Inl e \<Rightarrow> Inl e
           | Inr top_emotion \<Rightarrow>
               Inr \<lparr>input_text = text_v, mood = label top_emotion,
                    confidence = py_round (score top_emotion) 3\<rparr>))"

section \<open>The size check of \<^verbatim>\<open>analyze_audio\<close> (src/backend/main.py, lines 41-52)\<close>

type_synonym byte = "8 word"

text \<open>
  The uploaded file as the handler sees it: the bytes of the body and the position of
  the next read. \<^verbatim>\<open>read(n)\<close> gives the next \<open>n\<close> bytes, or what is left of them, and moves
  the position past them; at the end it gives the empty string.
\<close>

record upload =
  filename :: string
  body :: "byte list"
  pos :: nat

definition file_read :: "nat \<Rightarrow> upload \<Rightarrow> byte list \<times> upload" where
  "file_read n f =
     (let chunk = take n (drop (pos f) (body f))
      in (chunk, f\<lparr>pos := pos f + length chunk\<rparr>))"

definition MAX_FILE_SIZE :: nat where
  "MAX_FILE_SIZE = 10 * 1024 * 1024"

definition CHUNK_SIZE :: nat where
  "CHUNK_SIZE = 8192"

text \<open>
  How the loop of lines 48-52 is left: by the \<^verbatim>\<open>return\<close> of line 51 (\<open>too_large\<close>) or
  at the end of the body, with the file as the reads left it and the handler's variables
  \<^verbatim>\<open>file_size\<close>, \<^verbatim>\<open>contents\<close> and \<^verbatim>\<open>chunk\<close> at that moment.
\<close>

record loop_exit =
  too_large :: bool
  file_after :: upload
  file_size :: nat
  contents :: "byte list"
  chunk :: "byte list"

function read_loop :: "upload \<Rightarrow> nat \<Rightarrow> byte list \<Rightarrow> loop_exit" where
  "read_loop f size_so_far buffered =
     (if fst (file_read CHUNK_SIZE f) = [] then
        \<lparr>too_large = False, file_after = snd (file_read CHUNK_SIZE f),
         file_size = size_so_far, contents = buffered, chunk = []\<rparr>
      else if size_so_far + length (fst (file_read CHUNK_SIZE f)) > MAX_FILE_SIZE then
        \<lparr>too_large = True, file_after = snd (file_read CHUNK_SIZE f),
         file_size = size_so_far + length (fst (file_read CHUNK_SIZE f)),
         contents = buffered, chunk = fst (file_read CHUNK_SIZE f)\<rparr>
      else
        read_loop (snd (file_read CHUNK_SIZE f))
          (size_so_far + length (fst (file_read CHUNK_SIZE f)))
          (buffered @ fst (file_read CHUNK_SIZE f)))"
  by pat_completeness auto
termination
  by (relation "measure (\<lambda>(f, s, b). length (body f) - pos f)")
    (auto simp: file_read_def Let_def)

definition read_upload :: "upload \<Rightarrow> loop_exit" where
  "read_upload f = read_loop f 0 []"

text \<open>
  The handler up to line 52. What follows the loop (the check of the file type, the
  transcription and the classification, lines 54-93) is the parameter \<open>rest\<close>, given the
  file and the bytes read.
\<close>

definition analyze_audio :: "(upload \<Rightarrow> byte list \<Rightarrow> 'r) \<Rightarrow> upload \<Rightarrow> string + 'r" where
  "analyze_audio rest f =
     (let e = read_upload f in
      if too_large e then Inl ''File size too large. Maximum size is 10MB''
      else Inr (rest (file_after e) (contents e)))"

section \<open>Example inputs\<close>

definition track :: "json \<Rightarrow> json \<Rightarrow> json" where
  "track i p =
     JObj [(''id'', i), (''title'', JStr ''t''), (''artist'', JObj [(''name'', JStr ''a'')]),
           (''preview'', p)]"

definition track_entry :: "json \<Rightarrow> track_info" where
  "track_entry p = \<lparr>title = JStr ''t'', artist = JStr ''a'', preview_url = p\<rparr>"

text \<open>The four candidates of the specification's example: a null preview and a repeated id.\<close>

definition four_songs :: "json list" where
  "four_songs =
     [track (JInt 1) JNull, track (JInt 2) (JStr ''u2''), track (JInt 2) (JStr ''u2''),
      track (JInt 3) (JStr ''u3'')]"

definition ten_songs :: "json list" where
  "ten_songs =
     [track (JInt 1) (JStr ''a''), track (JInt 2) (JStr ''b''), track (JInt 3) (JStr ''c''),
      track (JInt 4) (JStr ''d''), track (JInt 5) (JStr ''e''), track (JInt 6) (JStr ''f''),
      track (JInt 7) (JStr ''g''), track (JInt 8) (JStr ''h''), track (JInt 9) (JStr ''i''),
      track (JInt 10) (JStr ''j'')]"

text \<open>Candidates with no \<^verbatim>\<open>id\<close>, no \<^verbatim>\<open>title\<close> and no \<^verbatim>\<open>artist\<close>.\<close>

definition bare_track :: "json \<Rightarrow> json" where
  "bare_track p = JObj [(''preview'', p)]"

definition bare_entry :: "json \<Rightarrow> track_info" where
  "bare_entry p = \<lparr>title = JNull, artist = JNull, preview_url = p\<rparr>"

text \<open>An upload one byte over the limit.\<close>

definition big_upload :: upload where
  "big_upload = \<lparr>filename = ''a.wav'', body = replicate (MAX_FILE_SIZE + 1) 0, pos = 0\<rparr>"

text \<open>
  Classifier outputs. The scores are the floats that the literals \<^verbatim>\<open>0.4\<close>, \<^verbatim>\<open>0.6\<close>,
  \<^verbatim>\<open>0.5\<close>, \<^verbatim>\<open>0.61234\<close> and \<^verbatim>\<open>0.0025\<close> denote.
\<close>

definition blue_scores :: "rat scored list" where
  "blue_scores =
     [\<lparr>label = ''joy'', score = to_double (4 / 10)\<rparr>,
      \<lparr>label = ''sadness'', score = to_double (6 / 10)\<rparr>]"

definition tied_scores :: "rat scored list" where
  "tied_scores =
     [\<lparr>label = ''joy'', score = to_double (5 / 10)\<rparr>,
      \<lparr>label = ''sadness'', score = to_double (5 / 10)\<rparr>]"

definition long_scores :: "rat scored list" where
  "long_scores =
     [\<lparr>label = ''fear'', score = to_double (25 / 10000)\<rparr>,
      \<lparr>label = ''joy'', score = to_double (61234 / 100000)\<rparr>]"

definition faint_scores :: "rat scored list" where
  "faint_scores = [\<lparr>label = ''fear'', score = to_double (25 / 10000)\<rparr>]"

section \<open>Predicates on candidates used in the statements\<close>

text \<open>A candidate the loop can read, with a preview that counts as true and a hashable id.\<close>

definition qualifies :: "json \<Rightarrow> bool" where
  "qualifies c =
     (case extract_fields c of
        Inl e \<Rightarrow> False
      | Inr (title_v, artist_name, preview_v, track_id) \<Rightarrow>
          py_truthy preview_v \<and> py_key_of track_id \<noteq> None)"

text \<open>A dict whose \<^verbatim>\<open>preview\<close> field is there and counts as true.\<close>

definition has_preview :: "json \<Rightarrow> bool" where
  "has_preview c =
     (case c of
        JObj kvs \<Rightarrow> (case map_of kvs ''preview'' of None \<Rightarrow> False | Some p \<Rightarrow> py_truthy p)
      | _ \<Rightarrow> False)"

text \<open>A dict with no \<^verbatim>\<open>id\<close> field.\<close>

definition lacks_id :: "json \<Rightarrow> bool" where
  "lacks_id c = (case c of JObj kvs \<Rightarrow> map_of kvs ''id'' = None | _ \<Rightarrow> False)"

text \<open>A dict whose \<^verbatim>\<open>artist\<close> field is absent or a dict, so that reading its fields does not raise.\<close>

definition artist_readable :: "(string \<times> json) list \<Rightarrow> bool" where
  "artist_readable kvs =
     (case map_of kvs ''artist'' of None \<Rightarrow> True | Some (JObj a) \<Rightarrow> True | Some _ \<Rightarrow> False)"

definition field_of :: "(string \<times> json) list \<Rightarrow> string \<Rightarrow> json" where
  "field_of kvs k = (case map_of kvs k of None \<Rightarrow> JNull | Some v \<Rightarrow> v)"

text \<open>
  A candidate the loop reads without raising: its fields can be extracted, and its id is
  hashable when its preview counts as true.
\<close>

definition readable :: "json \<Rightarrow> bool" where
  "readable c =
     (case extract_fields c of
        Inl e \<Rightarrow> False
      | Inr (title_v, artist_name, preview_v, track_id) \<Rightarrow>
          py_truthy preview_v \<longrightarrow> py_key_of track_id \<noteq> None)"

section \<open>Facts about one candidate\<close>

lemma inspect_Accept:
  assumes "inspect song seen = Accept info k"
  shows "entry_of song = Some info" and "id_key song = Some k" and "k \<notin> seen"
    and "py_truthy (preview_url info)"
  using assms
  by (auto simp: inspect_def entry_of_def id_key_def
      split: sum.splits prod.splits if_splits option.splits)

section \<open>Facts about the loop\<close>

lemma filter_loop_length:
  assumes "filter_loop target songs pl seen = Inr out"
  shows "int (length out) \<le> max target (int (length pl) + 1) \<or> out = pl"
  using assms
proof (induction songs arbitrary: pl seen)
  case Nil
  then show ?case by simp
next
  case (Cons song songs)
  show ?case
  proof (cases "inspect song seen")
    case (Raise e)
    with Cons.prems show ?thesis by simp
  next
    case Skip
    with Cons.prems have "filter_loop target songs pl seen = Inr out" by simp
    from Cons.IH [OF this] show ?thesis .
  next
    case (Accept info k)
    show ?thesis
    proof (cases "int (length (pl @ [info])) \<ge> target")
      case True
      with Accept Cons.prems have "out = pl @ [info]" by simp
      then show ?thesis by simp
    next
      case False
      with Accept Cons.prems
      have "filter_loop target songs (pl @ [info]) (insert k seen) = Inr out" by simp
      from Cons.IH [OF this] False show ?thesis by auto
    qed
  qed
qed

lemma filter_loop_accepted:
  assumes "filter_loop target songs pl seen = Inr out"
  shows "map Some out = map Some pl @ map entry_of (accepted_songs target songs (length pl) seen)"
  using assms
proof (induction songs arbitrary: pl seen)
  case Nil
  then show ?case by simp
next
  case (Cons song songs)
  show ?case
  proof (cases "inspect song seen")
    case (Raise e)
    with Cons.prems show ?thesis by simp
  next
    case Skip
    with Cons.prems have "filter_loop target songs pl seen = Inr out" by simp
    from Cons.IH [OF this] Skip show ?thesis by simp
  next
    case (Accept info k)
    note entry = inspect_Accept(1) [OF Accept]
    show ?thesis
    proof (cases "int (length (pl @ [info])) \<ge> target")
      case True
      with Accept Cons.prems have "out = pl @ [info]" by simp
      with True Accept entry show ?thesis by simp
    next
      case False
      with Accept Cons.prems
      have "filter_loop target songs (pl @ [info]) (insert k seen) = Inr out" by simp
      from Cons.IH [OF this] False Accept entry show ?thesis by simp
    qed
  qed
qed

lemma accepted_songs_subseq: "subseq (accepted_songs target songs n seen) songs"
proof (induction songs arbitrary: n seen)
  case Nil
  show ?case by simp
next
  case (Cons song songs)
  show ?case
    by (cases "inspect song seen") (simp_all add: Cons.IH list_emb_Cons)
qed

lemma accepted_songs_keys:
  "distinct (map id_key (accepted_songs target songs n seen)) \<and>
   (\<forall>c \<in> set (accepted_songs target songs n seen). \<exists>k. id_key c = Some k \<and> k \<notin> seen)"
proof (induction songs arbitrary: n seen)
  case Nil
  show ?case by simp
next
  case (Cons song songs)
  show ?case
  proof (cases "inspect song seen")
    case (Raise e)
    then show ?thesis by simp
  next
    case Skip
    with Cons.IH [of n seen] show ?thesis by simp
  next
    case (Accept info k)
    note key = inspect_Accept(2,3) [OF Accept]
    from Cons.IH [of "Suc n" "insert k seen"] Accept key show ?thesis
      by (cases "int (Suc n) \<ge> target") auto
  qed
qed

lemma filter_loop_truthy:
  assumes "filter_loop target songs pl seen = Inr out"
    and "\<forall>e \<in> set pl. py_truthy (preview_url e)"
  shows "\<forall>e \<in> set out. py_truthy (preview_url e)"
  using assms
proof (induction songs arbitrary: pl seen)
  case Nil
  then show ?case by simp
next
  case (Cons song songs)
  show ?case
  proof (cases "inspect song seen")
    case (Raise e)
    with Cons.prems show ?thesis by simp
  next
    case Skip
    with Cons.prems have "filter_loop target songs pl seen = Inr out" by simp
    from Cons.IH [OF this Cons.prems(2)] show ?thesis .
  next
    case (Accept info k)
    from inspect_Accept(4) [OF Accept] Cons.prems(2)
    have inv: "\<forall>e \<in> set (pl @ [info]). py_truthy (preview_url e)" by simp
    show ?thesis
    proof (cases "int (length (pl @ [info])) \<ge> target")
      case True
      with Accept Cons.prems have "out = pl @ [info]" by simp
      with inv show ?thesis by simp
    next
      case False
      with Accept Cons.prems
      have "filter_loop target songs (pl @ [info]) (insert k seen) = Inr out" by simp
      from Cons.IH [OF this inv] show ?thesis .
    qed
  qed
qed

lemma py_truthy_nonempty: "py_truthy v \<Longrightarrow> v \<noteq> JNull \<and> v \<noteq> JStr []"
  by (cases v) auto

lemma playlist_filter_bounded:
  assumes "playlist_filter target songs = Inr pl"
  shows "int (length pl) \<le> max target 1"
  using filter_loop_length [of target songs "[]" "{}" pl] assms
  by (auto simp: playlist_filter_def)

lemma contributors_entries:
  assumes "playlist_filter target songs = Inr pl"
  shows "map entry_of (contributors target songs) = map Some pl"
  using filter_loop_accepted [of target songs "[]" "{}" pl] assms
  by (simp add: playlist_filter_def contributors_def)

lemma inspect_has_preview: "inspect c seen = Accept info k \<Longrightarrow> has_preview c"
  by (cases c)
    (auto simp: inspect_def extract_fields_def has_preview_def
      split: sum.splits prod.splits if_splits option.splits)

lemma accepted_songs_preview: "\<forall>c \<in> set (accepted_songs target songs n seen). has_preview c"
proof (induction songs arbitrary: n seen)
  case Nil
  show ?case by simp
next
  case (Cons c songs)
  show ?case
    by (cases "inspect c seen") (auto simp: Cons.IH inspect_has_preview)
qed

lemma eval_track [simp]:
  "extract_fields (track i p) = Inr (JStr ''t'', JStr ''a'', p, i)"
  by (simp add: track_def extract_fields_def)

lemma eval_bare_track [simp]:
  "extract_fields (bare_track p) = Inr (JNull, JNull, p, JNull)"
  by (simp add: bare_track_def extract_fields_def)

section \<open>The playlist's invariants\<close>

text \<open>
  C1. For every candidate sequence, a playlist the filter returns has at most the target
  count of entries: at most \<open>TARGET_SONGS = 5\<close>, the target of \<^verbatim>\<open>get_playlist\<close>, and
  likewise for any target count of at least 1 in its place.
\<close>

theorem playlist_length_le_target:
  "(playlist_filter TARGET_SONGS songs = Inr pl \<longrightarrow> int (length pl) \<le> TARGET_SONGS) \<and>
   (1 \<le> target \<and> playlist_filter target songs = Inr pl' \<longrightarrow> int (length pl') \<le> target)"
proof (intro conjI impI)
  assume "playlist_filter TARGET_SONGS songs = Inr pl"
  from playlist_filter_bounded [OF this] show "int (length pl) \<le> TARGET_SONGS"
    by (simp add: TARGET_SONGS_def)
next
  assume "1 \<le> target \<and> playlist_filter target songs = Inr pl'"
  with playlist_filter_bounded [of target songs pl'] show "int (length pl') \<le> target"
    by simp
qed

theorem playlist_length_le_target_witness:
  "playlist_filter TARGET_SONGS ten_songs =
     Inr [track_entry (JStr ''a''), track_entry (JStr ''b''), track_entry (JStr ''c''),
          track_entry (JStr ''d''), track_entry (JStr ''e'')] \<and>
   int (length [track_entry (JStr ''a''), track_entry (JStr ''b''), track_entry (JStr ''c''),
          track_entry (JStr ''d''), track_entry (JStr ''e'')]) \<le> TARGET_SONGS \<and>
   playlist_filter 2 ten_songs = Inr [track_entry (JStr ''a''), track_entry (JStr ''b'')] \<and>
   int (length [track_entry (JStr ''a''), track_entry (JStr ''b'')]) \<le> 2"
proof -
  have run: "playlist_filter TARGET_SONGS ten_songs =
     Inr [track_entry (JStr ''a''), track_entry (JStr ''b''), track_entry (JStr ''c''),
          track_entry (JStr ''d''), track_entry (JStr ''e'')]"
    by (simp add: playlist_filter_def TARGET_SONGS_def ten_songs_def inspect_def track_entry_def)
  have two: "playlist_filter 2 ten_songs = Inr [track_entry (JStr ''a''), track_entry (JStr ''b'')]"
    by (simp add: playlist_filter_def ten_songs_def inspect_def track_entry_def)
  note bound = playlist_length_le_target
    [of ten_songs
      "[track_entry (JStr ''a''), track_entry (JStr ''b''), track_entry (JStr ''c''),
        track_entry (JStr ''d''), track_entry (JStr ''e'')]"
      2 "[track_entry (JStr ''a''), track_entry (JStr ''b'')]"]
  from bound run
  have five: "int (length [track_entry (JStr ''a''), track_entry (JStr ''b''),
      track_entry (JStr ''c''), track_entry (JStr ''d''), track_entry (JStr ''e'')]) \<le> TARGET_SONGS"
    by blast
  from bound two
  have pair: "int (length [track_entry (JStr ''a''), track_entry (JStr ''b'')]) \<le> 2"
    by simp
  from run five two pair show ?thesis by blast
qed

text \<open>
  C2. The entries of a returned playlist are built, one each and in order, from
  candidates of the input (the contributors), and the keys of the contributors' ids are
  pairwise distinct.
\<close>

theorem playlist_ids_distinct:
  assumes "playlist_filter target songs = Inr pl"
  shows "map entry_of (contributors target songs) = map Some pl \<and>
         subseq (contributors target songs) songs \<and>
         distinct (map id_key (contributors target songs))"
  using contributors_entries [OF assms] accepted_songs_subseq [of target songs 0 "{}"]
    accepted_songs_keys [of target songs 0 "{}"]
  by (simp add: contributors_def)

theorem playlist_ids_distinct_witness:
  "playlist_filter TARGET_SONGS four_songs = Inr [track_entry (JStr ''u2''), track_entry (JStr ''u3'')] \<and>
   contributors TARGET_SONGS four_songs = [track (JInt 2) (JStr ''u2''), track (JInt 3) (JStr ''u3'')] \<and>
   distinct (map id_key (contributors TARGET_SONGS four_songs))"
proof -
  have run: "playlist_filter TARGET_SONGS four_songs = Inr [track_entry (JStr ''u2''), track_entry (JStr ''u3'')]"
    by (simp add: playlist_filter_def TARGET_SONGS_def four_songs_def inspect_def track_entry_def)
  have who: "contributors TARGET_SONGS four_songs =
      [track (JInt 2) (JStr ''u2''), track (JInt 3) (JStr ''u3'')]"
    by (simp add: contributors_def TARGET_SONGS_def four_songs_def inspect_def)
  from playlist_ids_distinct [OF run] run who show ?thesis by simp
qed

text \<open>
  C3. Every entry of a returned playlist has a preview URL that is neither null nor the
  empty string (it counts as true in Python), and every contributing candidate is a dict
  whose \<^verbatim>\<open>preview\<close> field is present with such a value.
\<close>

theorem playlist_previews_nonempty:
  assumes "playlist_filter target songs = Inr pl"
  shows "(\<forall>e \<in> set pl. py_truthy (preview_url e) \<and> preview_url e \<noteq> JNull \<and> preview_url e \<noteq> JStr []) \<and>
         (\<forall>c \<in> set (contributors target songs). has_preview c)"
proof -
  from assms have "filter_loop target songs [] {} = Inr pl"
    by (simp add: playlist_filter_def)
  from filter_loop_truthy [OF this] have "\<forall>e \<in> set pl. py_truthy (preview_url e)" by simp
  with py_truthy_nonempty accepted_songs_preview [of target songs 0 "{}"]
  show ?thesis by (auto simp: contributors_def)
qed

theorem playlist_previews_nonempty_witness:
  "playlist_filter TARGET_SONGS [track (JInt 1) JNull, track (JInt 2) (JStr []), bare_track (JStr ''u3'')]
     = Inr [bare_entry (JStr ''u3'')] \<and>
   preview_url (bare_entry (JStr ''u3'')) \<noteq> JNull \<and>
   preview_url (bare_entry (JStr ''u3'')) \<noteq> JStr []"
proof -
  have run: "playlist_filter TARGET_SONGS
      [track (JInt 1) JNull, track (JInt 2) (JStr []), bare_track (JStr ''u3'')]
     = Inr [bare_entry (JStr ''u3'')]"
    by (simp add: playlist_filter_def TARGET_SONGS_def inspect_def bare_entry_def)
  from playlist_previews_nonempty [OF run] run show ?thesis by simp
qed

section \<open>What the acceptance test reads\<close>

lemma extract_fields_dict:
  assumes "artist_readable kvs"
  shows "\<exists>name. extract_fields (JObj kvs) =
           Inr (field_of kvs ''title'', name, field_of kvs ''preview'', field_of kvs ''id'')"
  using assms
  by (auto simp: artist_readable_def extract_fields_def field_of_def
      split: option.splits json.splits)

text \<open>
  C9. For a candidate whose fields can be read, acceptance is decided by the \<^verbatim>\<open>preview\<close>
  and \<^verbatim>\<open>id\<close> fields and the identifiers seen so far, whatever \<^verbatim>\<open>title\<close> and \<^verbatim>\<open>artist.name\<close>
  are; and some candidate sequence gives a playlist with an entry whose \<^verbatim>\<open>title\<close> and
  \<^verbatim>\<open>artist\<close> are both null.
\<close>

theorem acceptance_ignores_title_artist:
  assumes "artist_readable kvs"
  shows "((\<exists>info k. inspect (JObj kvs) seen = Accept info k) =
          (py_truthy (field_of kvs ''preview'') \<and>
           (\<exists>k. py_key_of (field_of kvs ''id'') = Some k \<and> k \<notin> seen))) \<and>
         (\<exists>songs pl e. playlist_filter TARGET_SONGS songs = Inr pl \<and> e \<in> set pl \<and>
            title e = JNull \<and> artist e = JNull)"
proof
  from extract_fields_dict [OF assms] obtain name where
    "extract_fields (JObj kvs) =
       Inr (field_of kvs ''title'', name, field_of kvs ''preview'', field_of kvs ''id'')"
    by blast
  then show "(\<exists>info k. inspect (JObj kvs) seen = Accept info k) =
          (py_truthy (field_of kvs ''preview'') \<and>
           (\<exists>k. py_key_of (field_of kvs ''id'') = Some k \<and> k \<notin> seen))"
    by (auto simp: inspect_def split: option.splits)
next
  have "playlist_filter TARGET_SONGS [bare_track (JStr ''u'')] = Inr [bare_entry (JStr ''u'')]"
    by (simp add: playlist_filter_def TARGET_SONGS_def inspect_def bare_entry_def)
  moreover have "title (bare_entry (JStr ''u'')) = JNull \<and> artist (bare_entry (JStr ''u'')) = JNull"
    by (simp add: bare_entry_def)
  ultimately show "\<exists>songs pl e. playlist_filter TARGET_SONGS songs = Inr pl \<and> e \<in> set pl \<and>
            title e = JNull \<and> artist e = JNull"
    by (intro exI [of _ "[bare_track (JStr ''u'')]"] exI [of _ "[bare_entry (JStr ''u'')]"]
        exI [of _ "bare_entry (JStr ''u'')"]) simp
qed

theorem acceptance_ignores_title_artist_witness:
  "artist_readable [(''id'', JInt 7), (''preview'', JStr ''u'')] \<and>
   inspect (JObj [(''id'', JInt 7), (''preview'', JStr ''u'')]) {} =
     Accept \<lparr>title = JNull, artist = JNull, preview_url = JStr ''u''\<rparr> (KNum 7) \<and>
   (\<exists>info k. inspect (JObj [(''id'', JInt 7), (''preview'', JStr ''u'')]) {} = Accept info k) \<and>
   playlist_filter TARGET_SONGS [JObj [(''id'', JInt 7), (''preview'', JStr ''u'')]] =
     Inr [\<lparr>title = JNull, artist = JNull, preview_url = JStr ''u''\<rparr>]"
proof -
  have readable: "artist_readable [(''id'', JInt 7), (''preview'', JStr ''u'')]"
    by (simp add: artist_readable_def)
  have fields: "field_of [(''id'', JInt 7), (''preview'', JStr ''u'')] ''preview'' = JStr ''u''"
    "field_of [(''id'', JInt 7), (''preview'', JStr ''u'')] ''id'' = JInt 7"
    by (simp_all add: field_of_def)
  have step: "inspect (JObj [(''id'', JInt 7), (''preview'', JStr ''u'')]) {} =
     Accept \<lparr>title = JNull, artist = JNull, preview_url = JStr ''u''\<rparr> (KNum 7)"
    by (simp add: inspect_def extract_fields_def)
  have run: "playlist_filter TARGET_SONGS [JObj [(''id'', JInt 7), (''preview'', JStr ''u'')]] =
     Inr [\<lparr>title = JNull, artist = JNull, preview_url = JStr ''u''\<rparr>]"
    by (simp add: playlist_filter_def TARGET_SONGS_def step)
  from acceptance_ignores_title_artist [OF readable, of "{}"] fields
  have "\<exists>info k. inspect (JObj [(''id'', JInt 7), (''preview'', JStr ''u'')]) {} = Accept info k"
    by simp
  with readable step run show ?thesis by simp
qed

section \<open>Candidates without an id\<close>

lemma distinct_filter_le_one:
  assumes "distinct (map f xs)"
  shows "length (filter (\<lambda>x. f x = v) xs) \<le> 1"
  using assms
proof (induction xs)
  case Nil
  show ?case by simp
next
  case (Cons x xs)
  show ?case
  proof (cases "f x = v")
    case True
    with Cons.prems have "\<forall>y \<in> set xs. f y \<noteq> v" by (auto simp: image_iff)
    then have "filter (\<lambda>x. f x = v) xs = []" by (simp add: filter_empty_conv)
    with True show ?thesis by simp
  next
    case False
    with Cons show ?thesis by simp
  qed
qed

lemma lacks_id_key:
  assumes "lacks_id c" and "id_key c = Some k"
  shows "k = KNone"
  using assms
  by (cases c)
    (auto simp: lacks_id_def id_key_def extract_fields_def
      split: sum.splits prod.splits option.splits)

lemma filter_length_mono:
  assumes "\<forall>x \<in> set xs. P x \<longrightarrow> Q x"
  shows "length (filter P xs) \<le> length (filter Q xs)"
  using assms by (induction xs) auto

text \<open>
  C10. A candidate with no \<^verbatim>\<open>id\<close> field is deduplicated under the one key of \<^verbatim>\<open>None\<close>: among
  the candidates that contribute the entries of a returned playlist, each one without an
  \<^verbatim>\<open>id\<close> has that key, and there is at most one of them.
\<close>

theorem at_most_one_idless_contributor:
  assumes "playlist_filter target songs = Inr pl"
  shows "map entry_of (contributors target songs) = map Some pl \<and>
         (\<forall>c \<in> set (contributors target songs). lacks_id c \<longrightarrow> id_key c = Some KNone) \<and>
         length (filter lacks_id (contributors target songs)) \<le> 1"
proof -
  let ?cs = "contributors target songs"
  from accepted_songs_keys [of target songs 0 "{}"]
  have dist: "distinct (map id_key ?cs)" and keyed: "\<forall>c \<in> set ?cs. \<exists>k. id_key c = Some k"
    by (auto simp: contributors_def)
  from keyed have none: "\<forall>c \<in> set ?cs. lacks_id c \<longrightarrow> id_key c = Some KNone"
    using lacks_id_key by blast
  from filter_length_mono [of ?cs lacks_id "\<lambda>c. id_key c = Some KNone", OF none]
    distinct_filter_le_one [OF dist, of "Some KNone"]
  have "length (filter lacks_id ?cs) \<le> 1" by linarith
  with contributors_entries [OF assms] none show ?thesis by simp
qed

theorem at_most_one_idless_contributor_witness:
  "playlist_filter TARGET_SONGS
      [bare_track (JStr ''u1''), bare_track (JStr ''u2''), track (JInt 3) (JStr ''u3'')] =
     Inr [bare_entry (JStr ''u1''), track_entry (JStr ''u3'')] \<and>
   contributors TARGET_SONGS
      [bare_track (JStr ''u1''), bare_track (JStr ''u2''), track (JInt 3) (JStr ''u3'')] =
     [bare_track (JStr ''u1''), track (JInt 3) (JStr ''u3'')] \<and>
   lacks_id (bare_track (JStr ''u2'')) \<and>
   length (filter lacks_id (contributors TARGET_SONGS
      [bare_track (JStr ''u1''), bare_track (JStr ''u2''), track (JInt 3) (JStr ''u3'')])) \<le> 1"
proof -
  have run: "playlist_filter TARGET_SONGS
      [bare_track (JStr ''u1''), bare_track (JStr ''u2''), track (JInt 3) (JStr ''u3'')] =
     Inr [bare_entry (JStr ''u1''), track_entry (JStr ''u3'')]"
    by (simp add: playlist_filter_def TARGET_SONGS_def inspect_def bare_entry_def track_entry_def)
  have who: "contributors TARGET_SONGS
      [bare_track (JStr ''u1''), bare_track (JStr ''u2''), track (JInt 3) (JStr ''u3'')] =
     [bare_track (JStr ''u1''), track (JInt 3) (JStr ''u3'')]"
    by (simp add: contributors_def TARGET_SONGS_def inspect_def)
  have idless: "lacks_id (bare_track (JStr ''u2''))"
    by (simp add: lacks_id_def bare_track_def)
  from at_most_one_idless_contributor [OF run] run who idless show ?thesis by simp
qed

section \<open>Order and the stop at the target\<close>

lemma filter_loop_stops:
  assumes "filter_loop target songs pl seen = Inr out"
    and "int (length pl) < target" and "target \<le> int (length out)"
  shows "\<exists>n \<le> length songs. \<forall>more. filter_loop target (take n songs @ more) pl seen = Inr out"
  using assms
proof (induction songs arbitrary: pl seen)
  case Nil
  then show ?case by simp
next
  case (Cons c songs)
  show ?case
  proof (cases "inspect c seen")
    case (Raise e)
    with Cons.prems show ?thesis by simp
  next
    case Skip
    with Cons.prems have "filter_loop target songs pl seen = Inr out" by simp
    from Cons.IH [OF this Cons.prems(2,3)] obtain n where
      n: "n \<le> length songs" "\<forall>more. filter_loop target (take n songs @ more) pl seen = Inr out"
      by blast
    with Skip have "\<forall>more. filter_loop target (take (Suc n) (c # songs) @ more) pl seen = Inr out"
      by simp
    with n(1) show ?thesis by (intro exI [of _ "Suc n"]) simp
  next
    case (Accept info k)
    show ?thesis
    proof (cases "int (length (pl @ [info])) \<ge> target")
      case True
      with Accept Cons.prems have "out = pl @ [info]" by simp
      with True Accept
      have "\<forall>more. filter_loop target (take (Suc 0) (c # songs) @ more) pl seen = Inr out"
        by simp
      then show ?thesis by (intro exI [of _ "Suc 0"]) simp
    next
      case False
      with Accept Cons.prems
      have run: "filter_loop target songs (pl @ [info]) (insert k seen) = Inr out" by simp
      from False have "int (length (pl @ [info])) < target" by simp
      from Cons.IH [OF run this Cons.prems(3)] obtain n where
        n: "n \<le> length songs"
           "\<forall>more. filter_loop target (take n songs @ more) (pl @ [info]) (insert k seen) = Inr out"
        by blast
      with Accept False
      have "\<forall>more. filter_loop target (take (Suc n) (c # songs) @ more) pl seen = Inr out"
        by simp
      with n(1) show ?thesis by (intro exI [of _ "Suc n"]) simp
    qed
  qed
qed

lemma qualifies_inspect:
  assumes "qualifies c" and "id_key c = Some k" and "k \<notin> seen"
  shows "inspect c seen = Accept (the (entry_of c)) k"
  using assms
  by (auto simp: qualifies_def id_key_def entry_of_def inspect_def
      split: sum.splits prod.splits)

lemma qualifies_id_key: "qualifies c \<Longrightarrow> \<exists>k. id_key c = Some k"
  by (auto simp: qualifies_def id_key_def split: sum.splits prod.splits)

lemma filter_loop_all_qualify:
  assumes "\<forall>c \<in> set songs. qualifies c" and "distinct (map id_key songs)"
    and "\<forall>c \<in> set songs. \<forall>k. id_key c = Some k \<longrightarrow> k \<notin> seen"
    and "int (length pl) < target"
  shows "filter_loop target songs pl seen =
           Inr (pl @ map (the \<circ> entry_of) (take (nat target - length pl) songs))"
  using assms
proof (induction songs arbitrary: pl seen)
  case Nil
  then show ?case by simp
next
  case (Cons c songs)
  from Cons.prems(1) qualifies_id_key obtain k where k: "id_key c = Some k" by auto
  with Cons.prems(3) have "k \<notin> seen" by simp
  with Cons.prems(1) k have step: "inspect c seen = Accept (the (entry_of c)) k"
    by (simp add: qualifies_inspect)
  show ?case
  proof (cases "int (length (pl @ [the (entry_of c)])) \<ge> target")
    case True
    with Cons.prems(4) have "nat target - length pl = Suc 0" by simp
    with True step show ?thesis by simp
  next
    case False
    then have more: "nat target - length pl = Suc (nat target - length (pl @ [the (entry_of c)]))"
      by simp
    from Cons.prems(2) k have "\<forall>d \<in> set songs. id_key d \<noteq> Some k" by (auto simp: image_iff)
    with Cons.prems(3)
    have fresh: "\<forall>d \<in> set songs. \<forall>k'. id_key d = Some k' \<longrightarrow> k' \<notin> insert k seen"
      by auto
    from False have below: "int (length (pl @ [the (entry_of c)])) < target" by simp
    from Cons.prems(1,2) have "\<forall>d \<in> set songs. qualifies d" "distinct (map id_key songs)"
      by simp_all
    from Cons.IH [OF this fresh below] False step more show ?thesis by simp
  qed
qed

text \<open>
  C4. For a target of at least 1: the entries are built, in the input's order, from a
  subsequence of the candidates; when the playlist reaches the target, it is the result
  on a prefix of the input, and whatever follows that prefix has no effect on the result
  (it is not read: a candidate that would raise there does not); and when all candidates
  are readable, with true-valued previews and hashable, pairwise distinct ids, the
  playlist is the entries of the first \<open>target\<close> candidates in order, so 2 of 10 for the
  target 2.
\<close>

theorem filter_stops_at_target:
  assumes "1 \<le> target"
  shows "(\<forall>pl. playlist_filter target songs = Inr pl \<longrightarrow>
            map entry_of (contributors target songs) = map Some pl \<and>
            subseq (contributors target songs) songs) \<and>
         (\<forall>pl. playlist_filter target songs = Inr pl \<and> target \<le> int (length pl) \<longrightarrow>
            (\<exists>n \<le> length songs. \<forall>more. playlist_filter target (take n songs @ more) = Inr pl)) \<and>
         ((\<forall>c \<in> set songs. qualifies c) \<and> distinct (map id_key songs) \<longrightarrow>
            playlist_filter target songs = Inr (map (the \<circ> entry_of) (take (nat target) songs)))"
proof (intro conjI allI impI)
  fix pl
  assume "playlist_filter target songs = Inr pl"
  then show "map entry_of (contributors target songs) = map Some pl"
    by (rule contributors_entries)
next
  show "subseq (contributors target songs) songs"
    by (simp add: contributors_def accepted_songs_subseq)
next
  fix pl
  assume "playlist_filter target songs = Inr pl \<and> target \<le> int (length pl)"
  with assms filter_loop_stops [of target songs "[]" "{}" pl]
  show "\<exists>n \<le> length songs. \<forall>more. playlist_filter target (take n songs @ more) = Inr pl"
    by (simp add: playlist_filter_def)
next
  assume "(\<forall>c \<in> set songs. qualifies c) \<and> distinct (map id_key songs)"
  with assms filter_loop_all_qualify [of songs "{}" "[]" target]
  show "playlist_filter target songs = Inr (map (the \<circ> entry_of) (take (nat target) songs))"
    by (simp add: playlist_filter_def)
qed

theorem filter_stops_at_target_witness:
  "playlist_filter 2 ten_songs = Inr [track_entry (JStr ''a''), track_entry (JStr ''b'')] \<and>
   length ten_songs = 10 \<and>
   map (the \<circ> entry_of) (take 2 ten_songs) = [track_entry (JStr ''a''), track_entry (JStr ''b'')] \<and>
   (\<exists>n \<le> length ten_songs. \<forall>more.
      playlist_filter 2 (take n ten_songs @ more) =
        Inr [track_entry (JStr ''a''), track_entry (JStr ''b'')]) \<and>
   playlist_filter 2 (take 2 ten_songs @ [JNull]) =
     Inr [track_entry (JStr ''a''), track_entry (JStr ''b'')] \<and>
   playlist_filter 2 [JNull] = Inl AttributeError"
proof -
  have run: "playlist_filter 2 ten_songs = Inr [track_entry (JStr ''a''), track_entry (JStr ''b'')]"
    by (simp add: playlist_filter_def ten_songs_def inspect_def track_entry_def)
  have all: "\<forall>c \<in> set ten_songs. qualifies c"
    by (simp add: ten_songs_def qualifies_def)
  have ids: "distinct (map id_key ten_songs)"
    by (simp add: ten_songs_def id_key_def)
  have first: "map (the \<circ> entry_of) (take 2 ten_songs) =
      [track_entry (JStr ''a''), track_entry (JStr ''b'')]"
    by (simp add: ten_songs_def entry_of_def track_entry_def)
  have tail: "playlist_filter 2 (take 2 ten_songs @ [JNull]) =
      Inr [track_entry (JStr ''a''), track_entry (JStr ''b'')]"
    by (simp add: playlist_filter_def ten_songs_def inspect_def track_entry_def)
  have bad: "playlist_filter 2 [JNull] = Inl AttributeError"
    by (simp add: playlist_filter_def inspect_def extract_fields_def)
  have len: "length ten_songs = 10" by (simp add: ten_songs_def)
  from filter_stops_at_target [of 2 ten_songs] run all ids first
  have "\<exists>n \<le> length ten_songs. \<forall>more.
      playlist_filter 2 (take n ten_songs @ more) =
        Inr [track_entry (JStr ''a''), track_entry (JStr ''b'')]"
    by simp
  with run len first tail bad show ?thesis by simp
qed

section \<open>The handler: search term and status codes\<close>

text \<open>
  C5 (as amended). The search term is the default \<^verbatim>\<open>lofi\<close> when the query has no
  parameter \<^verbatim>\<open>q\<close>, and otherwise the first value given for \<^verbatim>\<open>q\<close>, the empty string included;
  the handler asks the search provider for that term and no other.
\<close>

theorem search_term_default_when_absent:
  "search_term args = (case map_of args ''q'' of None \<Rightarrow> ''lofi'' | Some v \<Rightarrow> v) \<and>
   get_playlist args deezer = get_playlist args (\<lambda>q. deezer (search_term args))"
  by (simp add: search_term_def args_get_def DEFAULT_QUERY_def get_playlist_def)

text \<open>C5 as stated fails for \<^verbatim>\<open>?q=\<close>: the key is present, so the empty string is the term.\<close>

theorem search_term_empty_q:
  "search_term [(''q'', [])] = [] \<and> search_term [(''q'', [])] \<noteq> DEFAULT_QUERY"
  by (simp add: search_term_def args_get_def DEFAULT_QUERY_def)

lemma search_term_examples:
  "search_term [] = ''lofi''" "search_term [(''q'', ''jazz'')] = ''jazz''"
  by (simp_all add: search_term_def args_get_def DEFAULT_QUERY_def)

lemma readable_inspect: "readable c \<Longrightarrow> inspect c seen \<noteq> Raise e"
  by (auto simp: readable_def inspect_def split: sum.splits prod.splits option.splits)

lemma filter_loop_returns:
  assumes "\<forall>c \<in> set songs. readable c"
  shows "\<exists>out. filter_loop target songs pl seen = Inr out"
  using assms
proof (induction songs arbitrary: pl seen)
  case Nil
  show ?case by simp
next
  case (Cons c songs)
  from Cons.prems have rest: "\<forall>d \<in> set songs. readable d" by simp
  show ?case
  proof (cases "inspect c seen")
    case (Raise e)
    with Cons.prems readable_inspect [of c seen e] show ?thesis by simp
  next
    case Skip
    with Cons.IH [OF rest, of pl seen] show ?thesis by simp
  next
    case (Accept info k)
    with Cons.IH [OF rest, of "pl @ [info]" "insert k seen"] show ?thesis by simp
  qed
qed

text \<open>
  C6 (as amended). When the provider's answer decodes to a dict whose \<^verbatim>\<open>data\<close> is a list
  and the filter loop returns, the handler answers 404 with the error body of "no songs"
  exactly when no candidate was accepted, and otherwise 200 with the accepted list as it
  is (of fewer entries than the target when the input ran out first). The loop returns
  whenever every candidate is readable: a dict whose \<^verbatim>\<open>artist\<close> is absent or a dict and whose
  id is hashable when it has a preview.
\<close>

theorem no_songs_iff_none_accepted:
  assumes "deezer (search_term args) = Decoded (JObj kvs)"
    and "map_of kvs ''data'' = Some (JArr songs)"
  shows "(\<forall>accepted. playlist_filter TARGET_SONGS songs = Inr accepted \<longrightarrow>
            ((get_playlist args deezer = Inr (no_songs_error (search_term args))) = (accepted = [])) \<and>
            (accepted \<noteq> [] \<longrightarrow> get_playlist args deezer = Inr (SongList accepted, 200))) \<and>
         (\<exists>m. no_songs_error (search_term args) = (ErrorBody ''No Songs Found'' m, 404)) \<and>
         ((\<forall>c \<in> set songs. readable c) \<longrightarrow>
            (\<exists>accepted. playlist_filter TARGET_SONGS songs = Inr accepted))"
proof (intro conjI allI impI)
  fix accepted
  assume run: "playlist_filter TARGET_SONGS songs = Inr accepted"
  with assms
  show "(get_playlist args deezer = Inr (no_songs_error (search_term args))) = (accepted = [])"
    by (auto simp: get_playlist_def playlist_filter_def no_songs_error_def)
  assume "accepted \<noteq> []"
  with assms run show "get_playlist args deezer = Inr (SongList accepted, 200)"
    by (simp add: get_playlist_def playlist_filter_def)
next
  show "\<exists>m. no_songs_error (search_term args) = (ErrorBody ''No Songs Found'' m, 404)"
    by (simp add: no_songs_error_def)
next
  assume "\<forall>c \<in> set songs. readable c"
  from filter_loop_returns [OF this, of TARGET_SONGS "[]" "{}"]
  show "\<exists>accepted. playlist_filter TARGET_SONGS songs = Inr accepted"
    by (simp add: playlist_filter_def)
qed

theorem no_songs_iff_none_accepted_witness:
  "get_playlist [(''q'', ''jazz'')] (\<lambda>q. Decoded (JObj [(''data'', JArr four_songs)])) =
     Inr (SongList [track_entry (JStr ''u2''), track_entry (JStr ''u3'')], 200) \<and>
   int (length [track_entry (JStr ''u2''), track_entry (JStr ''u3'')]) < TARGET_SONGS \<and>
   get_playlist [] (\<lambda>q. Decoded (JObj [(''data'', JArr [track (JInt 1) JNull])])) =
     Inr (no_songs_error ''lofi'') \<and>
   snd (no_songs_error ''lofi'') = 404 \<and>
   list_all readable four_songs \<and>
   (\<exists>accepted. playlist_filter TARGET_SONGS four_songs = Inr accepted)"
proof -
  have run: "playlist_filter TARGET_SONGS four_songs =
      Inr [track_entry (JStr ''u2''), track_entry (JStr ''u3'')]"
    by (simp add: playlist_filter_def TARGET_SONGS_def four_songs_def inspect_def track_entry_def)
  have none: "playlist_filter TARGET_SONGS [track (JInt 1) JNull] = Inr []"
    by (simp add: playlist_filter_def inspect_def)
  have data: "map_of [(''data'', JArr four_songs)] ''data'' = Some (JArr four_songs)"
    "map_of [(''data'', JArr [track (JInt 1) JNull])] ''data'' = Some (JArr [track (JInt 1) JNull])"
    by simp_all
  have all: "list_all readable four_songs"
    by (simp add: four_songs_def readable_def)
  note four = no_songs_iff_none_accepted [of "\<lambda>q. Decoded (JObj [(''data'', JArr four_songs)])"
      "[(''q'', ''jazz'')]" "[(''data'', JArr four_songs)]" four_songs, OF refl data(1)]
  from four run
  have ok: "get_playlist [(''q'', ''jazz'')] (\<lambda>q. Decoded (JObj [(''data'', JArr four_songs)])) =
     Inr (SongList [track_entry (JStr ''u2''), track_entry (JStr ''u3'')], 200)"
    by simp
  from four all have returns: "\<exists>accepted. playlist_filter TARGET_SONGS four_songs = Inr accepted"
    by (simp add: list_all_iff)
  from no_songs_iff_none_accepted
      [of "\<lambda>q. Decoded (JObj [(''data'', JArr [track (JInt 1) JNull])])" "[]"
        "[(''data'', JArr [track (JInt 1) JNull])]" "[track (JInt 1) JNull]", OF refl data(2)] none
  have empty: "get_playlist [] (\<lambda>q. Decoded (JObj [(''data'', JArr [track (JInt 1) JNull])])) =
     Inr (no_songs_error ''lofi'')"
    by (simp add: search_term_examples)
  from ok empty all returns show ?thesis by (simp add: TARGET_SONGS_def no_songs_error_def)
qed

text \<open>
  C6 as stated fails on a body that passes the check of line 60 and holds a candidate the
  loop cannot read: with \<^verbatim>\<open>{"data": [null]}\<close> nothing is accepted and the handler raises
  instead of answering 404, and with a good candidate followed by \<^verbatim>\<open>null\<close> one is accepted
  and the handler raises instead of answering 200.
\<close>

theorem get_playlist_raises_on_null_candidate:
  "get_playlist [] (\<lambda>q. Decoded (JObj [(''data'', JArr [JNull])])) = Inl AttributeError \<and>
   contributors TARGET_SONGS [JNull] = [] \<and>
   get_playlist [] (\<lambda>q. Decoded (JObj [(''data'', JArr [track (JInt 1) (JStr ''u1''), JNull])])) =
     Inl AttributeError \<and>
   contributors TARGET_SONGS [track (JInt 1) (JStr ''u1''), JNull] = [track (JInt 1) (JStr ''u1'')]"
  by (simp add: get_playlist_def contributors_def TARGET_SONGS_def inspect_def extract_fields_def
      track_def)

section \<open>Top-score selection\<close>

lemma max_loop_split:
  assumes "\<forall>x \<in> set pre. score x < score m" and "\<forall>x \<in> set mid. score x \<le> score m"
  shows "\<exists>before after. pre @ m # mid @ xs = before @ max_loop m xs # after \<and>
           (\<forall>x \<in> set before. score x < score (max_loop m xs)) \<and>
           (\<forall>x \<in> set after. score x \<le> score (max_loop m xs))"
  using assms
proof (induction xs arbitrary: pre m mid)
  case Nil
  then show ?case by (intro exI [of _ pre] exI [of _ mid]) simp
next
  case (Cons x xs)
  show ?case
  proof (cases "score x > score m")
    case True
    with Cons.prems have "\<forall>y \<in> set (pre @ m # mid). score y < score x" by auto
    from Cons.IH [of "pre @ m # mid" x "[]", OF this] True show ?thesis by simp
  next
    case False
    with Cons.prems(2) have "\<forall>y \<in> set (mid @ [x]). score y \<le> score m" by auto
    from Cons.IH [of pre m "mid @ [x]", OF Cons.prems(1) this] False show ?thesis by simp
  qed
qed

lemma py_max_split:
  assumes "result \<noteq> []"
  shows "\<exists>before top after. result = before @ top # after \<and> py_max result = Inr top \<and>
           (\<forall>x \<in> set before. score x < score top) \<and>
           (\<forall>x \<in> set after. score x \<le> score top)"
proof -
  from assms obtain m xs where result: "result = m # xs" by (cases result) auto
  from max_loop_split [of "[]" m "[]" xs] obtain before after where
    split: "m # xs = before @ max_loop m xs # after"
    "\<forall>x \<in> set before. score x < score (max_loop m xs)"
    "\<forall>x \<in> set after. score x \<le> score (max_loop m xs)"
    by auto
  from result have "py_max result = Inr (max_loop m xs)" by simp
  moreover from result split(1) have "result = before @ max_loop m xs # after" by simp
  ultimately show ?thesis using split(2,3) by blast
qed

section \<open>Rounding a float to three decimals\<close>

lemma round_half_even_nearest:
  "\<bar>of_int (round_half_even q) - q\<bar> \<le> 1 / 2 \<and>
   (\<bar>of_int (round_half_even q) - q\<bar> = 1 / 2 \<longrightarrow> even (round_half_even q))"
proof -
  define f where "f = \<lfloor>q\<rfloor>"
  define d where "d = q - of_int f"
  have d: "0 \<le> d" "d < 1" unfolding d_def f_def by linarith+
  have q: "q = of_int f + d" by (simp add: d_def)
  consider "d < 1 / 2" | "d > 1 / 2" | "d = 1 / 2" "even f" | "d = 1 / 2" "odd f"
    by fastforce
  then show ?thesis
  proof cases
    case 1
    then have "round_half_even q = f" by (simp add: round_half_even_def Let_def f_def d_def)
    with 1 d q show ?thesis by simp
  next
    case 2
    then have "round_half_even q = f + 1" by (simp add: round_half_even_def Let_def f_def d_def)
    with 2 d q show ?thesis by simp
  next
    case 3
    then have "round_half_even q = f" by (simp add: round_half_even_def Let_def f_def d_def)
    with 3 q show ?thesis by simp
  next
    case 4
    then have "round_half_even q = f + 1" by (simp add: round_half_even_def Let_def f_def d_def)
    with 4 q show ?thesis by simp
  qed
qed

lemma bit_length_0: "bit_length 0 = 0"
  by (subst bit_length.simps) simp

lemma bit_length_pos: "0 < n \<Longrightarrow> bit_length n = Suc (bit_length (n div 2))"
  by (subst bit_length.simps) simp

lemma bit_length_bounds:
  "0 < n \<Longrightarrow> 2 ^ (bit_length n - 1) \<le> n \<and> n < 2 ^ bit_length n"
proof (induction n rule: less_induct)
  case (less n)
  note bl = bit_length_pos [OF less.prems]
  show ?case
  proof (cases "n div 2 = 0")
    case True
    with less.prems have "n = 1" by (simp add: div_eq_0_iff)
    then show ?thesis by (simp add: bit_length_pos bit_length_0)
  next
    case False
    then have half: "0 < n div 2" "n div 2 < n" using less.prems by simp_all
    from less.IH [OF half(2) half(1)]
    have ih: "2 ^ (bit_length (n div 2) - 1) \<le> n div 2" "n div 2 < 2 ^ bit_length (n div 2)"
      by simp_all
    from half(1) have "bit_length (n div 2) = Suc (bit_length (n div 2) - 1)"
      by (simp add: bit_length_pos)
    then have dbl: "(2::nat) ^ bit_length (n div 2) = 2 * 2 ^ (bit_length (n div 2) - 1)"
      by (metis power_Suc)
    from ih(1) have lo: "2 * 2 ^ (bit_length (n div 2) - 1) \<le> n" by linarith
    from ih(2) have hi: "n < 2 * 2 ^ bit_length (n div 2)" by linarith
    from lo hi dbl show ?thesis unfolding bl by simp
  qed
qed

lemma pow2_powi: "pow2 e = 2 powi e"
  by (simp add: pow2_def power_int_def power_inverse [symmetric] inverse_eq_divide power_one_over)

lemma pow2_pos: "0 < pow2 e"
  by (simp add: pow2_powi)

lemma ilog2_bounds:
  assumes "0 < q"
  shows "pow2 (ilog2 q) \<le> q \<and> q < pow2 (ilog2 q + 1)"
proof (cases "1 \<le> q")
  case True
  define n where "n = nat \<lfloor>q\<rfloor>"
  from True have n: "0 < n" "of_nat n \<le> q" "q < of_nat n + 1"
    unfolding n_def by (simp, simp, linarith)
  from bit_length_bounds [OF n(1)]
  have b: "2 ^ (bit_length n - 1) \<le> n" "n + 1 \<le> 2 ^ bit_length n" by simp_all
  from n(1) have bpos: "0 < bit_length n" by (simp add: bit_length_pos)
  from True have il: "ilog2 q = int (bit_length n) - 1" by (simp add: ilog2_def n_def)
  from bpos have lo: "pow2 (ilog2 q) = 2 ^ (bit_length n - 1)"
    unfolding il pow2_def by (simp add: nat_diff_distrib')
  have hi: "pow2 (ilog2 q + 1) = 2 ^ bit_length n"
    unfolding il pow2_def by simp
  from b(1) have L: "(2::rat) ^ (bit_length n - 1) \<le> of_nat n" by simp
  from b(2) have "(of_nat (n + 1) :: rat) \<le> of_nat (2 ^ bit_length n)" by (rule of_nat_mono)
  then have H: "of_nat n + 1 \<le> (2::rat) ^ bit_length n" by simp
  from L H n(2,3) show ?thesis unfolding lo hi by linarith
next
  case False
  define r where "r = 1 / q"
  define n where "n = nat (\<lceil>r\<rceil> - 1)"
  from False assms have r: "1 < r" by (simp add: r_def)
  then have c: "2 \<le> \<lceil>r\<rceil>" by linarith
  have n: "0 < n" "of_nat n < r" "r \<le> of_nat n + 1"
    unfolding n_def using c by (simp, linarith, linarith)
  from bit_length_bounds [OF n(1)]
  have b: "2 ^ (bit_length n - 1) \<le> n" "n + 1 \<le> 2 ^ bit_length n" by simp_all
  from n(1) have bpos: "0 < bit_length n" by (simp add: bit_length_pos)
  from False have il: "ilog2 q = - int (bit_length n)" by (simp add: ilog2_def n_def r_def)
  from bpos have lo: "pow2 (ilog2 q) = 1 / 2 ^ bit_length n"
    unfolding il pow2_def by simp
  from bpos have hi: "pow2 (ilog2 q + 1) = 1 / 2 ^ (bit_length n - 1)"
    unfolding il pow2_def by (auto simp: nat_diff_distrib' algebra_simps)
  from b(1) have L: "(2::rat) ^ (bit_length n - 1) \<le> of_nat n" by simp
  from b(2) have "(of_nat (n + 1) :: rat) \<le> of_nat (2 ^ bit_length n)" by (rule of_nat_mono)
  then have H: "of_nat n + 1 \<le> (2::rat) ^ bit_length n" by simp
  from L n(2) have up: "(2::rat) ^ (bit_length n - 1) < r" by linarith
  from H n(3) have dn: "r \<le> (2::rat) ^ bit_length n" by linarith
  have q: "q = 1 / r" by (simp add: r_def)
  from r have rpos: "0 < r" by simp
  have p2: "(0::rat) < 2 ^ (bit_length n - 1)" by simp
  from dn rpos have "1 / 2 ^ bit_length n \<le> 1 / r" by (simp add: frac_le)
  then have A: "1 / 2 ^ bit_length n \<le> q" by (simp only: q)
  from up p2 have "1 / r < 1 / 2 ^ (bit_length n - 1)"
    by (simp add: frac_less2)
  then have B: "q < 1 / 2 ^ (bit_length n - 1)" by (simp only: q)
  from A B show ?thesis unfolding lo hi by blast
qed

lemma pow2_shift: "pow2 (e + 1) = 2 ^ 53 * pow2 (e - 52)"
proof -
  have "(2::rat) powi (53 + (e - 52)) = 2 powi 53 * 2 powi (e - 52)"
    by (rule power_int_add) simp
  moreover have "(2::rat) powi 53 = 2 ^ 53" by (simp add: power_int_def)
  moreover have "53 + (e - 52) = e + 1" by simp
  ultimately show ?thesis unfolding pow2_powi by simp
qed

lemma pow2_mono: "a \<le> b \<Longrightarrow> pow2 a \<le> pow2 b"
  unfolding pow2_powi by (rule power_int_increasing) simp_all


lemma scaled_error:
  fixes m :: int and q ulp :: rat
  assumes "0 < ulp" and "\<bar>of_int m - q / ulp\<bar> \<le> 1 / 2"
  shows "\<bar>of_int m * ulp - q\<bar> \<le> ulp / 2"
proof -
  from assms(1) have "of_int m * ulp - q = (of_int m - q / ulp) * ulp" by (simp add: field_simps)
  then have "\<bar>of_int m * ulp - q\<bar> = \<bar>of_int m - q / ulp\<bar> * \<bar>ulp\<bar>"
    by (simp only: abs_mult)
  with assms(1) have "\<bar>of_int m * ulp - q\<bar> = \<bar>of_int m - q / ulp\<bar> * ulp" by simp
  moreover from assms have "\<bar>of_int m - q / ulp\<bar> * ulp \<le> (1 / 2) * ulp"
    by (intro mult_right_mono) simp_all
  ultimately show ?thesis by simp
qed

lemma significand_bound:
  fixes m :: int and q ulp K :: rat
  assumes "0 < ulp" and "\<bar>of_int m - q / ulp\<bar> \<le> 1 / 2" and "\<bar>q\<bar> < of_int k * ulp"
  shows "\<bar>m\<bar> \<le> k"
proof -
  from assms(1,3) have "\<bar>q\<bar> / ulp < of_int k" by (simp add: pos_divide_less_eq)
  with assms(1) have "\<bar>q / ulp\<bar> < of_int k" by (simp add: abs_of_pos)
  with assms(2) have "\<bar>(of_int m :: rat)\<bar> < of_int k + 1" by linarith
  then have "(of_int \<bar>m\<bar> :: rat) < of_int (k + 1)" by simp
  then have "\<bar>m\<bar> < k + 1" by (simp only: of_int_less_iff)
  then show ?thesis by simp
qed

lemma to_double_unfold:
  assumes "q \<noteq> 0"
  shows "to_double q =
    of_int (round_half_even (q / pow2 (max (ilog2 \<bar>q\<bar>) (- 1022) - 52))) *
      pow2 (max (ilog2 \<bar>q\<bar>) (- 1022) - 52)"
  using assms unfolding to_double_def Let_def by simp

lemma to_double_nearest:
  assumes "q \<noteq> 0"
  shows "\<exists>m e. e = max (ilog2 \<bar>q\<bar>) (- 1022) \<and> to_double q = of_int m * pow2 (e - 52) \<and>
           \<bar>m\<bar> \<le> 2 ^ 53 \<and> \<bar>to_double q - q\<bar> \<le> pow2 (e - 52) / 2"
proof -
  define e where "e = max (ilog2 \<bar>q\<bar>) (- 1022)"
  define ulp where "ulp = pow2 (e - 52)"
  define m where "m = round_half_even (q / ulp)"
  have ulp: "0 < ulp" by (simp add: ulp_def pow2_pos)
  have td: "to_double q = of_int m * ulp"
    unfolding m_def ulp_def e_def by (rule to_double_unfold [OF assms])
  from round_half_even_nearest [of "q / ulp"] have near: "\<bar>of_int m - q / ulp\<bar> \<le> 1 / 2"
    unfolding m_def by blast
  from scaled_error [OF ulp near] have err: "\<bar>of_int m * ulp - q\<bar> \<le> ulp / 2" .
  from assms have "0 < \<bar>q\<bar>" by simp
  from ilog2_bounds [OF this] have "\<bar>q\<bar> < pow2 (ilog2 \<bar>q\<bar> + 1)" by blast
  also have "\<dots> \<le> pow2 (e + 1)"
    by (rule pow2_mono) (simp add: e_def)
  also have "\<dots> = 2 ^ 53 * ulp"
    unfolding ulp_def by (rule pow2_shift)
  finally have "\<bar>q\<bar> < of_int (2 ^ 53) * ulp" by simp
  from significand_bound [OF ulp near this] have mb: "\<bar>m\<bar> \<le> 2 ^ 53" .
  from td err mb have "e = max (ilog2 \<bar>q\<bar>) (- 1022) \<and> to_double q = of_int m * pow2 (e - 52) \<and>
           \<bar>m\<bar> \<le> 2 ^ 53 \<and> \<bar>to_double q - q\<bar> \<le> pow2 (e - 52) / 2"
    unfolding e_def ulp_def by simp
  then show ?thesis by blast
qed

lemma round3_nearest:
  "\<bar>of_int (round_half_even (x * 1000)) / 1000 - x\<bar> \<le> 1 / 2000 \<and>
   (\<bar>of_int (round_half_even (x * 1000)) / 1000 - x\<bar> = 1 / 2000 \<longrightarrow>
      even (round_half_even (x * 1000)))"
proof -
  let ?k = "round_half_even (x * 1000)"
  have "of_int ?k / 1000 - x = (of_int ?k - x * 1000) / 1000" by (simp add: field_simps)
  then have "\<bar>of_int ?k / 1000 - x\<bar> = \<bar>(of_int ?k - x * 1000) / 1000\<bar>" by (simp only:)
  also have "\<dots> = \<bar>of_int ?k - x * 1000\<bar> / \<bar>1000\<bar>" by (rule abs_divide)
  finally have eq: "\<bar>of_int ?k / 1000 - x\<bar> = \<bar>of_int ?k - x * 1000\<bar> / 1000" by simp
  from round_half_even_nearest [of "x * 1000"] show ?thesis unfolding eq by auto
qed

lemma py_round_3: "py_round x 3 = to_double (of_int (round_half_even (x * 1000)) / 1000)"
  by (simp add: py_round_def)

text \<open>
  C7. For a non-empty list of (label, score) pairs from the classifier, the handler takes
  the pair \<open>top\<close> that no pair exceeds in score and that every earlier pair is strictly
  below (the first of the pairs with the maximum score), and answers with its label as
  \<^verbatim>\<open>mood\<close> and, as \<^verbatim>\<open>confidence\<close>, its score rounded to 3 decimal places: the float nearest
  to \<open>k / 1000\<close>, where \<open>k / 1000\<close> is the multiple of 1/1000 nearest to the score (within
  1/2000 of it, and with \<open>k\<close> even when the score is halfway between two multiples).
\<close>

theorem analyze_mood_selects_first_maximum:
  assumes "emotion_model text_v = result # others" and "result \<noteq> []"
  shows "\<exists>before top after k. result = before @ top # after \<and>
           (\<forall>x \<in> set before. score x < score top) \<and>
           (\<forall>x \<in> set after. score x \<le> score top) \<and>
           \<bar>of_int k / 1000 - score top\<bar> \<le> 1 / 2000 \<and>
           (\<bar>of_int k / 1000 - score top\<bar> = 1 / 2000 \<longrightarrow> even k) \<and>
           analyze_mood emotion_model text_v =
             Inr \<lparr>input_text = text_v, mood = label top,
                  confidence = to_double (of_int k / 1000)\<rparr>"
proof -
  from py_max_split [OF assms(2)] obtain before top after where
    split: "result = before @ top # after" "py_max result = Inr top"
      "\<forall>x \<in> set before. score x < score top" "\<forall>x \<in> set after. score x \<le> score top"
    by blast
  define k where "k = round_half_even (score top * 1000)"
  from assms(1) split(2)
  have answer: "analyze_mood emotion_model text_v =
          Inr \<lparr>input_text = text_v, mood = label top, confidence = to_double (of_int k / 1000)\<rparr>"
    by (simp add: analyze_mood_def py_round_3 k_def)
  from round3_nearest [of "score top"]
  have near: "\<bar>of_int k / 1000 - score top\<bar> \<le> 1 / 2000"
    "\<bar>of_int k / 1000 - score top\<bar> = 1 / 2000 \<longrightarrow> even k"
    unfolding k_def by blast+
  from split(1,3,4) near answer show ?thesis by blast
qed

theorem analyze_mood_selects_first_maximum_witness:
  "analyze_mood (\<lambda>t. [blue_scores]) ''so blue'' =
     Inr \<lparr>input_text = ''so blue'', mood = ''sadness'',
          confidence = 5404319552844595 / 9007199254740992\<rparr> \<and>
   to_double (6 / 10) = 5404319552844595 / 9007199254740992 \<and>
   analyze_mood (\<lambda>t. [tied_scores]) ''so so'' =
     Inr \<lparr>input_text = ''so so'', mood = ''joy'', confidence = 1 / 2\<rparr> \<and>
   analyze_mood (\<lambda>t. [long_scores]) ''glad'' =
     Inr \<lparr>input_text = ''glad'', mood = ''joy'',
          confidence = 5512405943901487 / 9007199254740992\<rparr> \<and>
   to_double (61234 / 100000) = 5515468391648099 / 9007199254740992 \<and>
   to_double (612 / 1000) = 5512405943901487 / 9007199254740992 \<and>
   analyze_mood (\<lambda>t. [faint_scores]) ''hm'' =
     Inr \<lparr>input_text = ''hm'', mood = ''fear'',
          confidence = 3458764513820541 / 1152921504606846976\<rparr> \<and>
   to_double (3 / 1000) = 3458764513820541 / 1152921504606846976 \<and>
   (\<exists>before top after k. blue_scores = before @ top # after \<and>
      analyze_mood (\<lambda>t. [blue_scores]) ''so blue'' =
        Inr \<lparr>input_text = ''so blue'', mood = label top,
             confidence = to_double (of_int k / 1000)\<rparr>)"
proof -
  have blue: "analyze_mood (\<lambda>t. [blue_scores]) ''so blue'' =
     Inr \<lparr>input_text = ''so blue'', mood = ''sadness'',
          confidence = 5404319552844595 / 9007199254740992\<rparr>"
    by code_simp
  have tie: "analyze_mood (\<lambda>t. [tied_scores]) ''so so'' =
     Inr \<lparr>input_text = ''so so'', mood = ''joy'', confidence = 1 / 2\<rparr>"
    by code_simp
  have long: "analyze_mood (\<lambda>t. [long_scores]) ''glad'' =
     Inr \<lparr>input_text = ''glad'', mood = ''joy'',
          confidence = 5512405943901487 / 9007199254740992\<rparr>"
    by code_simp
  have faint: "analyze_mood (\<lambda>t. [faint_scores]) ''hm'' =
     Inr \<lparr>input_text = ''hm'', mood = ''fear'',
          confidence = 3458764513820541 / 1152921504606846976\<rparr>"
    by code_simp
  have floats: "to_double (6 / 10) = 5404319552844595 / 9007199254740992"
    "to_double (61234 / 100000) = 5515468391648099 / 9007199254740992"
    "to_double (612 / 1000) = 5512405943901487 / 9007199254740992"
    "to_double (3 / 1000) = 3458764513820541 / 1152921504606846976"
    by code_simp+
  have nonempty: "blue_scores \<noteq> []" by (simp add: blue_scores_def)
  from analyze_mood_selects_first_maximum
    [of "\<lambda>t. [blue_scores]" "''so blue''" blue_scores "[]", OF refl nonempty]
  have "\<exists>before top after k. blue_scores = before @ top # after \<and>
      analyze_mood (\<lambda>t. [blue_scores]) ''so blue'' =
        Inr \<lparr>input_text = ''so blue'', mood = label top,
             confidence = to_double (of_int k / 1000)\<rparr>"
    by blast
  with blue tie long faint floats show ?thesis by blast
qed

section \<open>The size check on an upload\<close>

lemma file_read_fst: "fst (file_read n f) = take n (drop (pos f) (body f))"
  by (simp add: file_read_def Let_def)

lemma file_read_snd:
  "snd (file_read n f) = f\<lparr>pos := pos f + length (take n (drop (pos f) (body f)))\<rparr>"
  by (simp add: file_read_def Let_def)

lemma take_chunk_append:
  "take p xs @ take n (drop p xs) = take (p + length (take n (drop p xs))) xs"
  by (metis append_eq_conv_conj length_take min.idem take_add take_take)

lemma next_multiple_le:
  fixes p m c :: nat
  assumes "c dvd p" and "c dvd m" and "p < m"
  shows "p + c \<le> m"
proof -
  from assms(1,2) obtain a b where ab: "p = c * a" "m = c * b" by (auto simp: dvd_def)
  with assms(3) have "a < b" by (metis mult_less_cancel1)
  then have "Suc a \<le> b" by simp
  then have "c * Suc a \<le> c * b" by (rule mult_le_mono2)
  with ab show ?thesis by simp
qed

lemma read_loop_exit:
  assumes "size_so_far = pos f" and "buffered = take (pos f) (body f)"
    and "pos f \<le> MAX_FILE_SIZE" and "pos f \<le> length (body f)"
    and "CHUNK_SIZE dvd pos f \<or> length (body f) \<le> pos f"
  shows "(too_large (read_loop f size_so_far buffered) = (MAX_FILE_SIZE < length (body f))) \<and>
         (too_large (read_loop f size_so_far buffered) \<longrightarrow>
            contents (read_loop f size_so_far buffered) = take MAX_FILE_SIZE (body f) \<and>
            chunk (read_loop f size_so_far buffered) = take CHUNK_SIZE (drop MAX_FILE_SIZE (body f))) \<and>
         (\<not> too_large (read_loop f size_so_far buffered) \<longrightarrow>
            contents (read_loop f size_so_far buffered) = body f \<and>
            chunk (read_loop f size_so_far buffered) = []) \<and>
         file_size (read_loop f size_so_far buffered) =
           length (contents (read_loop f size_so_far buffered)) +
           length (chunk (read_loop f size_so_far buffered)) \<and>
         file_after (read_loop f size_so_far buffered) =
           f\<lparr>pos := file_size (read_loop f size_so_far buffered)\<rparr>"
  using assms
proof (induction f size_so_far buffered rule: read_loop.induct)
  case (1 f s b)
  let ?c = "take CHUNK_SIZE (drop (pos f) (body f))"
  let ?f' = "f\<lparr>pos := pos f + length ?c\<rparr>"
  have chunk_pos: "0 < CHUNK_SIZE" by (simp add: CHUNK_SIZE_def)
  have max_mult: "CHUNK_SIZE dvd MAX_FILE_SIZE" by (simp add: CHUNK_SIZE_def MAX_FILE_SIZE_def)
  show ?case
  proof (cases "?c = []")
    case True
    then have exit: "read_loop f s b =
        \<lparr>too_large = False, file_after = ?f', file_size = s, contents = b, chunk = []\<rparr>"
      by (subst read_loop.simps) (simp add: file_read_fst file_read_snd)
    from True chunk_pos have "length (body f) \<le> pos f" by simp
    with "1.prems" True show ?thesis unfolding exit by simp
  next
    case False
    note nonempty = this
    then have lt: "pos f < length (body f)" by (cases "pos f < length (body f)") auto
    with "1.prems"(5) have dv: "CHUNK_SIZE dvd pos f" by simp
    show ?thesis
    proof (cases "s + length ?c > MAX_FILE_SIZE")
      case True
      with nonempty have exit: "read_loop f s b =
          \<lparr>too_large = True, file_after = ?f', file_size = s + length ?c, contents = b,
           chunk = ?c\<rparr>"
        by (subst read_loop.simps) (simp add: file_read_fst file_read_snd)
      have "pos f = MAX_FILE_SIZE"
      proof (rule ccontr)
        assume "pos f \<noteq> MAX_FILE_SIZE"
        with "1.prems"(3) have "pos f < MAX_FILE_SIZE" by simp
        from next_multiple_le [OF dv max_mult this] True "1.prems"(1) show False by simp
      qed
      with "1.prems" lt show ?thesis unfolding exit by simp
    next
      case False
      with nonempty have step: "read_loop f s b = read_loop ?f' (s + length ?c) (b @ ?c)"
        by (subst read_loop.simps) (simp add: file_read_fst file_read_snd)
      have a1: "s + length ?c = pos ?f'" using "1.prems"(1) by simp
      have a2: "b @ ?c = take (pos ?f') (body ?f')"
        using "1.prems"(2) take_chunk_append [of "pos f" "body f" CHUNK_SIZE] by simp
      have a3: "pos ?f' \<le> MAX_FILE_SIZE" using False "1.prems"(1) by simp
      have a4: "pos ?f' \<le> length (body ?f')" using lt by simp
      have a5: "CHUNK_SIZE dvd pos ?f' \<or> length (body ?f') \<le> pos ?f'"
      proof (cases "CHUNK_SIZE \<le> length (body f) - pos f")
        case True
        then have "length ?c = CHUNK_SIZE" by simp
        with dv show ?thesis by simp
      next
        case False
        then have "length ?c = length (body f) - pos f" by simp
        with lt show ?thesis by simp
      qed
      from nonempty False have g: "fst (file_read CHUNK_SIZE f) \<noteq> []"
        "\<not> MAX_FILE_SIZE < s + length (fst (file_read CHUNK_SIZE f))"
        by (simp_all add: file_read_fst)
      note ih = "1.IH" [OF g, unfolded file_read_fst file_read_snd]
      note ih2 = ih [OF a1 a2 a3 a4 a5]
      have bf: "body ?f' = body f" by simp
      have upd: "\<And>n. ?f'\<lparr>pos := n\<rparr> = f\<lparr>pos := n\<rparr>" by simp
      from ih2 show ?thesis unfolding step bf upd .
    qed
  qed
qed

lemma read_upload_exit:
  assumes "pos f = 0"
  shows "(too_large (read_upload f) = (MAX_FILE_SIZE < length (body f))) \<and>
         (too_large (read_upload f) \<longrightarrow>
            contents (read_upload f) = take MAX_FILE_SIZE (body f) \<and>
            chunk (read_upload f) = take CHUNK_SIZE (drop MAX_FILE_SIZE (body f))) \<and>
         (\<not> too_large (read_upload f) \<longrightarrow>
            contents (read_upload f) = body f \<and> chunk (read_upload f) = []) \<and>
         file_size (read_upload f) =
           length (contents (read_upload f)) + length (chunk (read_upload f)) \<and>
         file_after (read_upload f) = f\<lparr>pos := file_size (read_upload f)\<rparr>"
  unfolding read_upload_def
  by (rule read_loop_exit) (simp_all add: assms)

lemma small_upload_read_whole:
  assumes "pos f = 0" and "length (body f) \<le> MAX_FILE_SIZE"
  shows "analyze_audio rest f = Inr (rest (f\<lparr>pos := length (body f)\<rparr>) (body f))"
proof -
  from read_upload_exit [OF assms(1)] assms(2)
  have "\<not> too_large (read_upload f)" "contents (read_upload f) = body f"
    "file_after (read_upload f) = f\<lparr>pos := length (body f)\<rparr>"
    by auto
  then show ?thesis by (simp add: analyze_audio_def Let_def)
qed

text \<open>
  C8. For an upload of more than 10 MiB, read from its start in chunks of 8192 bytes:
  the handler returns the error payload; at that moment the bytes kept are the first
  10 MiB of the body and the chunk in hand is the next one (at most 8192 bytes); the
  count first exceeds the limit with that chunk; and the file has been read up to the end
  of that chunk and no further, so never more than the limit plus one chunk, and the
  kept bytes are fewer than the body.
\<close>

theorem oversized_upload_rejected:
  assumes "pos f = 0" and "MAX_FILE_SIZE < length (body f)"
  shows "analyze_audio rest f = Inl ''File size too large. Maximum size is 10MB'' \<and>
         too_large (read_upload f) \<and>
         contents (read_upload f) = take MAX_FILE_SIZE (body f) \<and>
         chunk (read_upload f) = take CHUNK_SIZE (drop MAX_FILE_SIZE (body f)) \<and>
         file_size (read_upload f) =
           length (contents (read_upload f)) + length (chunk (read_upload f)) \<and>
         MAX_FILE_SIZE < file_size (read_upload f) \<and>
         file_size (read_upload f) - length (chunk (read_upload f)) \<le> MAX_FILE_SIZE \<and>
         pos (file_after (read_upload f)) = file_size (read_upload f) \<and>
         pos (file_after (read_upload f)) \<le> MAX_FILE_SIZE + CHUNK_SIZE \<and>
         length (contents (read_upload f)) < length (body f)"
proof -
  let ?e = "read_upload f"
  from read_upload_exit [OF assms(1)] assms(2)
  have large: "too_large ?e"
    and kept: "contents ?e = take MAX_FILE_SIZE (body f)"
    and hand: "chunk ?e = take CHUNK_SIZE (drop MAX_FILE_SIZE (body f))"
    and count: "file_size ?e = length (contents ?e) + length (chunk ?e)"
    and after: "file_after ?e = f\<lparr>pos := file_size ?e\<rparr>"
    by auto
  from large have answer: "analyze_audio rest f = Inl ''File size too large. Maximum size is 10MB''"
    by (simp add: analyze_audio_def Let_def)
  from kept assms(2) have len_kept: "length (contents ?e) = MAX_FILE_SIZE" by simp
  from hand assms(2) have len_hand: "0 < length (chunk ?e)" "length (chunk ?e) \<le> CHUNK_SIZE"
    by (simp_all add: CHUNK_SIZE_def)
  from after have at: "pos (file_after ?e) = file_size ?e" by simp
  from answer large kept hand count len_kept len_hand at assms(2) show ?thesis by simp
qed

theorem oversized_upload_rejected_witness:
  "pos big_upload = 0 \<and> MAX_FILE_SIZE < length (body big_upload) \<and>
   analyze_audio (\<lambda>f b. length b) big_upload = Inl ''File size too large. Maximum size is 10MB'' \<and>
   length (contents (read_upload big_upload)) = MAX_FILE_SIZE \<and>
   length (chunk (read_upload big_upload)) = 1 \<and>
   pos (file_after (read_upload big_upload)) = MAX_FILE_SIZE + 1"
proof -
  have start: "pos big_upload = 0" by (simp add: big_upload_def)
  have over: "MAX_FILE_SIZE < length (body big_upload)" by (simp add: big_upload_def)
  have whole: "body big_upload = replicate (MAX_FILE_SIZE + 1) 0" by (simp add: big_upload_def)
  from oversized_upload_rejected [OF start over, of "\<lambda>f b. length b"] start over
  show ?thesis by (simp add: whole CHUNK_SIZE_def)
qed

end
